theory Spec2Isabelle
  imports Main "HOL-Library.Word"
begin

unbundle bit_operations_syntax

section \<open>The shared string cache of contrib/roafteriniter (cache.h)\<close>

text \<open>
  The cache is a file mapped into memory: a packed header of two \<open>uint64_t\<close> fields
  followed by a flat arena of NUL-terminated strings. This theory embeds the operations of
  \<^verbatim>\<open>cache.h\<close> as functions on the mapped bytes, one process at a time: the semaphore calls
  that bracket every public operation make each of them one critical section, and
  \<^verbatim>\<open>_cache_sync\<close> (an \<^verbatim>\<open>msync\<close>) does not change the mapped bytes.
\<close>

subsection \<open>Result codes\<close>

definition CACHE_OP_SUCCESS :: int where "CACHE_OP_SUCCESS = 0"
definition CACHE_OPEN_FAILED :: int where "CACHE_OPEN_FAILED = push_bit 0 1"
definition CACHE_FTRUNC_FAILED :: int where "CACHE_FTRUNC_FAILED = push_bit 1 1"
definition CACHE_MAP_FAILED :: int where "CACHE_MAP_FAILED = push_bit 2 1"
definition CACHE_LOCK_INIT_FAILED :: int where "CACHE_LOCK_INIT_FAILED = push_bit 3 1"
definition CACHE_INSERTION_SUCCESS :: int where "CACHE_INSERTION_SUCCESS = push_bit 4 1"
definition CACHE_INSERTION_FAILED :: int where "CACHE_INSERTION_FAILED = push_bit 5 1"
definition CACHE_CONTAINS_SUCCESS :: int where "CACHE_CONTAINS_SUCCESS = push_bit 6 1"
definition CACHE_CONTAINS_FAILED :: int where "CACHE_CONTAINS_FAILED = push_bit 7 1"
definition CACHE_MUNMAP_FAILED :: int where "CACHE_MUNMAP_FAILED = push_bit 8 1"
definition CACHE_CLOSE_FAILED :: int where "CACHE_CLOSE_FAILED = push_bit 9 1"
definition CACHE_SEMCLOSE_FAILED :: int where "CACHE_SEMCLOSE_FAILED = push_bit 10 1"
definition CACHE_EINVAL :: int where "CACHE_EINVAL = push_bit 11 1"

subsection \<open>Data\<close>

type_synonym byte = "8 word"
type_synonym u64 = "64 word"

text \<open>\<^verbatim>\<open>struct cachehdr\<close>, packed: 16 bytes at offset 0 of the mapping.\<close>

record cachehdr =
  length_f :: u64
  count :: u64

text \<open>
  \<^verbatim>\<open>struct cache\<close>, the handle of one process. \<open>hdr\<close> is the address the file is mapped
  at, \<open>(uint64_t)cache->hdr\<close>; the bytes found there are a \<open>mapping\<close>.
\<close>

record cache =
  fd :: int
  lock :: nat
  size_f :: u64
  hdr :: u64

text \<open>
  The mapped bytes, shared by every process that maps the file: the header, and \<open>arena\<close>,
  the bytes from \<^verbatim>\<open>CACHE_DATA(c)\<close> to the end of the mapping (\<open>size - 16\<close> of them).
\<close>

record mapping =
  header :: cachehdr
  arena :: "byte list"

text \<open>
  A read past the end of the mapping and a write outside the arena have no defined result
  in C (a neighbouring mapping, SIGSEGV, a damaged header); the model reports them as
  faults.
\<close>

datatype fault = ReadPastRegion | WritePastRegion

subsection \<open>The C library functions used\<close>

text \<open>
  A \<^verbatim>\<open>const char *\<close> argument is the list of bytes it points to, with the terminating NUL
  implied after the last one; a NUL inside the list ends the string earlier, as it does
  in C. \<open>cstr\<close> is the string such a buffer holds.
\<close>

definition cstr :: "byte list \<Rightarrow> byte list" where
  "cstr str = takeWhile (\<lambda>b. b \<noteq> 0) str"

fun strlen :: "byte list \<Rightarrow> nat" where
  "strlen [] = 0"
| "strlen (b # bs) = (if b = 0 then 0 else Suc (strlen bs))"

text \<open>
  \<^verbatim>\<open>strncpy(dst, src, n)\<close> writes exactly \<open>n\<close> bytes: the bytes of \<open>src\<close> up to its NUL,
  then NULs.
\<close>

fun strncpy :: "byte list \<Rightarrow> nat \<Rightarrow> byte list" where
  "strncpy src 0 = []"
| "strncpy [] (Suc n) = 0 # strncpy [] n"
| "strncpy (b # bs) (Suc n) = (if b = 0 then 0 # strncpy [] n else b # strncpy bs n)"

text \<open>
  On the mapping, a pointer is the list of bytes from it to the end of the region.
  \<^verbatim>\<open>strlen(ptr)\<close> and \<^verbatim>\<open>strcmp(ptr, item)\<close> read from there until a NUL (or, for
  \<^verbatim>\<open>strcmp\<close>, a difference); \<open>None\<close> when they run off the end of the region first.
  \<open>strcmp_mem\<close> answers whether \<^verbatim>\<open>strcmp\<close> returns 0.
\<close>

fun strlen_mem :: "byte list \<Rightarrow> nat option" where
  "strlen_mem [] = None"
| "strlen_mem (b # bs) = (if b = 0 then Some 0 else map_option Suc (strlen_mem bs))"

fun strcmp_mem :: "byte list \<Rightarrow> byte list \<Rightarrow> bool option" where
  "strcmp_mem [] item = None"
| "strcmp_mem (b # bs) [] = Some (b = 0)"
| "strcmp_mem (b # bs) (c # cs) =
     (if b \<noteq> c then Some False else if b = 0 then Some True else strcmp_mem bs cs)"

text \<open>Storing \<open>bs\<close> at offset \<open>p\<close> of the arena.\<close>

definition write_bytes :: "byte list \<Rightarrow> nat \<Rightarrow> byte list \<Rightarrow> fault + byte list" where
  "write_bytes d p bs =
     (if p + length bs \<le> length d then Inr (take p d @ bs @ drop (p + length bs) d)
      else Inl WritePastRegion)"

subsection \<open>The operations under the lock\<close>

text \<open>
  \<^verbatim>\<open>_cache_contains\<close>: \<open>ptr\<close> starts at \<^verbatim>\<open>CACHE_DATA(cache)\<close>; the loop tests \<^verbatim>\<open>*ptr\<close>,
  compares, and advances by \<^verbatim>\<open>strlen(ptr) + 1\<close>.
\<close>

fun contains_loop :: "byte list \<Rightarrow> byte list \<Rightarrow> fault + int" where
  "contains_loop [] item = Inl ReadPastRegion"
| "contains_loop (b # bs) item =
     (if b = 0 then Inr CACHE_CONTAINS_FAILED
      else case strcmp_mem (b # bs) item of
          None \<Rightarrow> Inl ReadPastRegion
        | Some True \<Rightarrow> Inr CACHE_CONTAINS_SUCCESS
        | Some False \<Rightarrow>
            (case strlen_mem (b # bs) of
               None \<Rightarrow> Inl ReadPastRegion
             | Some n \<Rightarrow> contains_loop (drop (n + 1) (b # bs)) item))"

definition u_cache_contains :: "cache \<Rightarrow> mapping \<Rightarrow> byte list \<Rightarrow> fault + int" where
  "u_cache_contains c m item = contains_loop (arena m) item"

text \<open>
  \<^verbatim>\<open>_cache_insert\<close>. The addresses are 64-bit words, so \<open>copyend\<close> wraps as the C
  expression does; \<open>ptr\<close> is \<^verbatim>\<open>CACHE_ENDPTR(cache)\<close>, which is offset \<open>length\<close> of the arena.
\<close>

definition u_cache_insert :: "cache \<Rightarrow> mapping \<Rightarrow> byte list \<Rightarrow> fault + int \<times> mapping" where
  "u_cache_insert c m str =
     (let slen = (of_nat (strlen str) :: u64) in
      if slen = 0 then Inr (CACHE_INSERTION_FAILED, m)
      else
        let ptr = hdr c + 16 + length_f (header m);
            copyend = ptr + slen + 1;
            copystart = hdr c
        in if copyend < copystart \<or> copyend - copystart > size_f c
           then Inr (CACHE_INSERTION_FAILED, m)
           else
             (case write_bytes (arena m) (unat (length_f (header m)))
                     (strncpy str (unat slen)) of
                Inl f \<Rightarrow> Inl f
              | Inr a \<Rightarrow>
                  Inr (CACHE_INSERTION_SUCCESS,
                       \<lparr>header = \<lparr>length_f = length_f (header m) + slen + 1,
                                  count = count (header m) + 1\<rparr>,
                        arena = a\<rparr>)))"

subsection \<open>The public operations\<close>

text \<open>
  A pointer argument that may be \<^verbatim>\<open>NULL\<close> is an option. Each operation returns its result
  code and the mapping it leaves.
\<close>

definition cache_insert ::
  "cache option \<Rightarrow> mapping \<Rightarrow> byte list option \<Rightarrow> fault + int \<times> mapping" where
  "cache_insert cache m item =
     (case (cache, item) of
        (Some c, Some i) \<Rightarrow> u_cache_insert c m i
      | _ \<Rightarrow> Inr (CACHE_EINVAL, m))"

definition cache_contains ::
  "cache option \<Rightarrow> mapping \<Rightarrow> byte list option \<Rightarrow> fault + int \<times> mapping" where
  "cache_contains cache m item =
     (case (cache, item) of
        (Some c, Some i) \<Rightarrow>
          (case u_cache_contains c m i of Inl f \<Rightarrow> Inl f | Inr ret \<Rightarrow> Inr (ret, m))
      | _ \<Rightarrow> Inr (CACHE_EINVAL, m))"

definition cache_notcontains_insert ::
  "cache option \<Rightarrow> mapping \<Rightarrow> byte list option \<Rightarrow> fault + int \<times> mapping" where
  "cache_notcontains_insert cache m item =
     (case (cache, item) of
        (Some c, Some i) \<Rightarrow>
          (case u_cache_contains c m i of
             Inl f \<Rightarrow> Inl f
           | Inr ret \<Rightarrow>
               if ret = CACHE_CONTAINS_FAILED then u_cache_insert c m i else Inr (ret, m))
      | _ \<Rightarrow> Inr (CACHE_EINVAL, m))"

text \<open>
  \<^verbatim>\<open>cache_debug_traverse\<close> prints every string the same loop passes; the model returns
  the lines printed.
\<close>

fun traverse_loop :: "byte list \<Rightarrow> fault + byte list list" where
  "traverse_loop [] = Inl ReadPastRegion"
| "traverse_loop (b # bs) =
     (if b = 0 then Inr []
      else case strlen_mem (b # bs) of
          None \<Rightarrow> Inl ReadPastRegion
        | Some n \<Rightarrow>
            (case traverse_loop (drop (n + 1) (b # bs)) of
               Inl f \<Rightarrow> Inl f
             | Inr out \<Rightarrow> Inr (take n (b # bs) # out)))"

definition cache_debug_traverse :: "cache option \<Rightarrow> mapping \<Rightarrow> fault + byte list list" where
  "cache_debug_traverse cache m =
     (case cache of None \<Rightarrow> Inr [] | Some c \<Rightarrow> traverse_loop (arena m))"

subsection \<open>Mapping and unmapping\<close>

text \<open>
  The calls the two lifecycle functions make on the semaphore, the file and the mapping
  (the \<^verbatim>\<open>memset\<close> of the new mapping among them) are recorded in a trace, in the order
  made. What the operating system answers is a parameter: \<open>None\<close> stands for
  \<^verbatim>\<open>SEM_FAILED\<close>, \<open>-1\<close> and \<^verbatim>\<open>MAP_FAILED\<close>, and \<open>file_r\<close> is what an existing file holds.
\<close>

datatype syscall =
    Sem_open string | Sem_wait | Sem_post | Sem_close
  | Open_rdwr string | Open_creat string | Ftruncate u64 | Close
  | Mmap u64 | Memset u64 | Msync | Munmap

record os_env =
  sem_open_r :: "nat option"
  open_r :: "int option"
  open_creat_r :: "int option"
  ftruncate_r :: bool
  mmap_r :: "u64 option"
  file_r :: mapping
  sem_close_r :: bool
  munmap_r :: bool
  close_r :: bool

text \<open>
  \<^verbatim>\<open>cache_map\<close> returns its code, the handle and the mapped bytes when it succeeds, and
  the trace. The fields it stores in the handle before a failure are not kept.
\<close>

definition cache_map ::
  "os_env \<Rightarrow> cache option \<Rightarrow> string option \<Rightarrow> string option \<Rightarrow> u64
     \<Rightarrow> int \<times> (cache \<times> mapping) option \<times> syscall list" where
  "cache_map os cache fname lockname sz =
     (case (cache, fname, lockname) of
        (Some c, Some f, Some l) \<Rightarrow>
          if sz = 0 \<or> sz mod 0x1000 \<noteq> 0 then (CACHE_EINVAL, None, [])
          else
            (case sem_open_r os of
               None \<Rightarrow> (CACHE_LOCK_INIT_FAILED, None, [Sem_open l])
             | Some sem \<Rightarrow>
                 (case open_r os of
                    Some d \<Rightarrow>
                      (case mmap_r os of
                         None \<Rightarrow>
                           (CACHE_MAP_FAILED, None,
                            [Sem_open l, Sem_wait, Open_rdwr f, Mmap sz, Close, Sem_post])
                       | Some a \<Rightarrow>
                           (CACHE_OP_SUCCESS,
                            Some (\<lparr>fd = d, lock = sem, size_f = sz, hdr = a\<rparr>, file_r os),
                            [Sem_open l, Sem_wait, Open_rdwr f, Mmap sz, Sem_post]))
                  | None \<Rightarrow>
                      (case open_creat_r os of
                         None \<Rightarrow>
                           (CACHE_OPEN_FAILED, None,
                            [Sem_open l, Sem_wait, Open_rdwr f, Open_creat f, Sem_post])
                       | Some d \<Rightarrow>
                           if \<not> ftruncate_r os then
                             (CACHE_FTRUNC_FAILED, None,
                              [Sem_open l, Sem_wait, Open_rdwr f, Open_creat f,
                               Ftruncate sz, Close, Sem_post])
                           else
                             (case mmap_r os of
                                None \<Rightarrow>
                                  (CACHE_MAP_FAILED, None,
                                   [Sem_open l, Sem_wait, Open_rdwr f, Open_creat f,
                                    Ftruncate sz, Mmap sz, Close, Sem_post])
                              | Some a \<Rightarrow>
                                  (CACHE_OP_SUCCESS,
                                   Some (\<lparr>fd = d, lock = sem, size_f = sz, hdr = a\<rparr>,
                                         \<lparr>header = \<lparr>length_f = 0, count = 0\<rparr>,
                                          arena = replicate (unat sz - 16) 0\<rparr>),
                                   [Sem_open l, Sem_wait, Open_rdwr f, Open_creat f,
                                    Ftruncate sz, Mmap sz, Memset sz, Msync,
                                    Sem_post])))))
      | _ \<Rightarrow> (CACHE_EINVAL, None, []))"

definition cache_unmap :: "os_env \<Rightarrow> cache option \<Rightarrow> int \<times> syscall list" where
  "cache_unmap os cache =
     (case cache of
        None \<Rightarrow> (CACHE_EINVAL, [])
      | Some c \<Rightarrow>
          (let ret = CACHE_OP_SUCCESS;
               ret = (if \<not> sem_close_r os then ret OR CACHE_SEMCLOSE_FAILED else ret);
               ret = (if \<not> munmap_r os then ret OR CACHE_MUNMAP_FAILED else ret);
               ret = (if \<not> close_r os then ret OR CACHE_CLOSE_FAILED else ret)
           in (ret, [Sem_close, Munmap, Close])))"

subsection \<open>Sequences of operations\<close>

text \<open>
  The data operations as values, for sequences of calls on one handle.
  \<^verbatim>\<open>cache_debug_traverse\<close> returns nothing; its step is given the code
  \<^verbatim>\<open>CACHE_OP_SUCCESS\<close>.
\<close>

datatype op =
    Insert "byte list option"
  | Contains "byte list option"
  | Notcontains_insert "byte list option"
  | Debug_traverse

fun step :: "cache \<Rightarrow> op \<Rightarrow> mapping \<Rightarrow> fault + int \<times> mapping" where
  "step c (Insert item) m = cache_insert (Some c) m item"
| "step c (Contains item) m = cache_contains (Some c) m item"
| "step c (Notcontains_insert item) m = cache_notcontains_insert (Some c) m item"
| "step c Debug_traverse m =
     (case cache_debug_traverse (Some c) m of
        Inl f \<Rightarrow> Inl f
      | Inr out \<Rightarrow> Inr (CACHE_OP_SUCCESS, m))"

text \<open>
  \<open>run\<close> performs the operations in turn on the mapping and counts the calls that returned
  \<^verbatim>\<open>CACHE_INSERTION_SUCCESS\<close>. A call that reads past the region has written nothing: the
  shared bytes stay as they were, for the calls that follow. After a write outside the
  arena nothing is known of the mapping, and \<open>run\<close> ends with that fault.
\<close>

fun run :: "cache \<Rightarrow> op list \<Rightarrow> mapping \<times> nat \<Rightarrow> fault + mapping \<times> nat" where
  "run c [] s = Inr s"
| "run c (x # xs) (m, k) =
     (case step c x m of
        Inl ReadPastRegion \<Rightarrow> run c xs (m, k)
      | Inl WritePastRegion \<Rightarrow> Inl WritePastRegion
      | Inr (ret, m') \<Rightarrow>
          run c xs (m', if ret = CACHE_INSERTION_SUCCESS then Suc k else k))"





subsection \<open>What the arena holds\<close>

text \<open>
  The strings laid out in the arena, each followed by its NUL, and the reverse reading:
  every run of bytes that ends in a NUL, in order.
\<close>

definition encode :: "byte list list \<Rightarrow> byte list" where
  "encode items = concat (map (\<lambda>s. s @ [0]) items)"

fun split_nul :: "byte list \<Rightarrow> byte list \<Rightarrow> byte list list" where
  "split_nul cur [] = []"
| "split_nul cur (b # bs) =
     (if b = 0 then cur # split_nul [] bs else split_nul (cur @ [b]) bs)"

definition stored :: "mapping \<Rightarrow> byte list list" where
  "stored m = split_nul [] (take (unat (length_f (header m))) (arena m))"

text \<open>
  The invariant of a cache: the arena has the size of the mapping less the header, the
  occupied part is the stored strings (none of them empty) each with its NUL, the rest is
  zero, and \<open>count\<close> is the number of stored strings.
\<close>

definition cache_inv :: "cache \<Rightarrow> mapping \<Rightarrow> bool" where
  "cache_inv c m \<longleftrightarrow>
     16 \<le> unat (size_f c) \<and>
     length (arena m) = unat (size_f c) - 16 \<and>
     unat (length_f (header m)) \<le> unat (size_f c) - 16 \<and>
     (\<forall>b \<in> set (drop (unat (length_f (header m))) (arena m)). b = 0) \<and>
     take (unat (length_f (header m))) (arena m) = encode (stored m) \<and>
     [] \<notin> set (stored m) \<and>
     unat (count (header m)) = length (stored m)"

text \<open>
  A string argument and the mapping are objects of one 64-bit address space, so their
  sizes together stay below \<open>2 ^ 64\<close>; \<open>strlen\<close> returns a \<^verbatim>\<open>size_t\<close>.
\<close>

definition str_ok :: "cache \<Rightarrow> byte list \<Rightarrow> bool" where
  "str_ok c str \<longleftrightarrow> strlen str + 1 + unat (size_f c) < 2 ^ 64"

fun op_ok :: "cache \<Rightarrow> op \<Rightarrow> bool" where
  "op_ok c (Insert (Some i)) = str_ok c i"
| "op_ok c (Notcontains_insert (Some i)) = str_ok c i"
| "op_ok c x = True"

text \<open>
  The test of \<^verbatim>\<open>_cache_insert\<close> read in natural numbers (the string is empty, the end
  address passes \<open>2 ^ 64\<close>, or header, occupied bytes, string and NUL exceed the size), and
  the mapping a successful insert leaves.
\<close>

definition rejects :: "cache \<Rightarrow> mapping \<Rightarrow> byte list \<Rightarrow> bool" where
  "rejects c m str \<longleftrightarrow>
     strlen str = 0 \<or>
     2 ^ 64 \<le> unat (hdr c) + 16 + unat (length_f (header m)) + strlen str + 1 \<or>
     unat (size_f c) < 16 + unat (length_f (header m)) + strlen str + 1"

definition appended :: "mapping \<Rightarrow> byte list \<Rightarrow> mapping" where
  "appended m str =
     \<lparr>header = \<lparr>length_f = length_f (header m) + of_nat (strlen str) + 1,
                count = count (header m) + 1\<rparr>,
      arena = take (unat (length_f (header m))) (arena m) @ take (strlen str) str @
              drop (unat (length_f (header m)) + strlen str) (arena m)\<rparr>"

subsection \<open>The fixture of cache_test.cc\<close>

text \<open>
  \<^verbatim>\<open>CacheTest::SetUp\<close> removes the file and maps a cache of \<open>0x1000\<close> bytes, so the arena
  has 4080. \<^verbatim>\<open>InsertFailsLengthExceeded\<close> then inserts \<^verbatim>\<open>"AAA"\<close> 1020 times.
\<close>

definition test_env :: os_env where
  "test_env =
     \<lparr>sem_open_r = Some 1, open_r = None, open_creat_r = Some 3, ftruncate_r = True,
      mmap_r = Some 0x7f0000000000,
      file_r = \<lparr>header = \<lparr>length_f = 0, count = 0\<rparr>, arena = []\<rparr>,
      sem_close_r = True, munmap_r = True, close_r = True\<rparr>"

definition test_cache :: cache where
  "test_cache = \<lparr>fd = 3, lock = 1, size_f = 0x1000, hdr = 0x7f0000000000\<rparr>"

definition test_fresh :: mapping where
  "test_fresh = \<lparr>header = \<lparr>length_f = 0, count = 0\<rparr>, arena = replicate 4080 0\<rparr>"

definition str_AAA :: "byte list" where
  "str_AAA = [0x41, 0x41, 0x41]"

definition str_B :: "byte list" where
  "str_B = [0x42]"

definition str_big :: "byte list" where
  "str_big = replicate 4080 0x41"

definition test_full :: mapping where
  "test_full =
     fst (projr (run test_cache (replicate 1020 (Insert (Some str_AAA))) (test_fresh, 0)))"


definition test_dirty :: mapping where
  "test_dirty = \<lparr>header = \<lparr>length_f = 0, count = 0\<rparr>, arena = replicate 4080 0xFF\<rparr>"



section \<open>Auxiliary facts\<close>

lemmas cache_codes =
  CACHE_OP_SUCCESS_def CACHE_OPEN_FAILED_def CACHE_FTRUNC_FAILED_def CACHE_MAP_FAILED_def
  CACHE_LOCK_INIT_FAILED_def CACHE_INSERTION_SUCCESS_def CACHE_INSERTION_FAILED_def
  CACHE_CONTAINS_SUCCESS_def CACHE_CONTAINS_FAILED_def CACHE_MUNMAP_FAILED_def
  CACHE_CLOSE_FAILED_def CACHE_SEMCLOSE_FAILED_def CACHE_EINVAL_def

subsection \<open>Strings and runs of bytes\<close>

lemma strlen_cstr: "strlen s = length (cstr s)"
  by (induction s) (auto simp: cstr_def)

lemma length_cstr: "length (cstr s) = strlen s"
  by (simp add: strlen_cstr)

lemma cstr_nz: "0 \<notin> set (cstr s)"
  unfolding cstr_def by (metis (mono_tags, lifting) set_takeWhileD)

lemma take_strlen: "take (strlen s) s = cstr s"
  by (induction s) (auto simp: cstr_def)

lemma strncpy_strlen: "strncpy s (strlen s) = cstr s"
  by (induction s) (auto simp: cstr_def)

lemma length_strncpy: "length (strncpy s n) = n"
  by (induction s n rule: strncpy.induct) auto

lemma strlen_mem_run: "0 \<notin> set s \<Longrightarrow> strlen_mem (s @ 0 # rest) = Some (length s)"
  by (induction s) auto

lemma strcmp_mem_run: "0 \<notin> set s \<Longrightarrow> strcmp_mem (s @ 0 # rest) q = Some (s = cstr q)"
proof (induction s arbitrary: q)
  case Nil
  then show ?case by (cases q) (auto simp: cstr_def)
next
  case (Cons a s)
  then show ?case by (cases q) (auto simp: cstr_def)
qed

lemma split_nul_run:
  "0 \<notin> set s \<Longrightarrow> split_nul cur (s @ 0 # rest) = (cur @ s) # split_nul [] rest"
  by (induction s arbitrary: cur) auto

lemma split_nul_encode: "\<forall>s \<in> set items. 0 \<notin> set s \<Longrightarrow> split_nul [] (encode items) = items"
  by (induction items) (auto simp: encode_def split_nul_run)

lemma split_nul_nz: "0 \<notin> set cur \<Longrightarrow> s \<in> set (split_nul cur bs) \<Longrightarrow> 0 \<notin> set s"
proof (induction bs arbitrary: cur)
  case Nil
  then show ?case by simp
next
  case (Cons b bs)
  show ?case
  proof (cases "b = 0")
    case True
    then have "s = cur \<or> s \<in> set (split_nul [] bs)" using Cons.prems(2) by simp
    then show ?thesis using Cons.prems(1) Cons.IH[of "[]"] by auto
  next
    case False
    then have "s \<in> set (split_nul (cur @ [b]) bs)" using Cons.prems(2) by simp
    moreover have "0 \<notin> set (cur @ [b])" using False Cons.prems(1) by simp
    ultimately show ?thesis by (rule Cons.IH[rotated])
  qed
qed

lemma encode_snoc: "encode (items @ [s]) = encode items @ s @ [0]"
  by (simp add: encode_def)

lemma length_encode_ge:
  "\<forall>s \<in> set items. s \<noteq> [] \<Longrightarrow> 2 * length items \<le> length (encode items)"
proof (induction items)
  case Nil
  then show ?case by (simp add: encode_def)
next
  case (Cons s items)
  then have "1 \<le> length s" by (cases s) auto
  moreover have "length (encode (s # items)) = length s + 1 + length (encode items)"
    by (simp add: encode_def)
  ultimately show ?case using Cons by simp
qed

lemma all_zero_replicate: "\<forall>b \<in> set xs. b = (0::byte) \<Longrightarrow> xs = replicate (length xs) 0"
  by (simp add: replicate_length_same)

subsection \<open>The two scans over laid-out strings\<close>

lemma contains_loop_item:
  assumes "s \<noteq> []" "0 \<notin> set s"
  shows "contains_loop (s @ 0 # rest) q =
     (if s = cstr q then Inr CACHE_CONTAINS_SUCCESS else contains_loop rest q)"
proof -
  obtain b bs where s: "s = b # bs" using assms(1) by (cases s) auto
  have b0: "b \<noteq> 0" using s assms(2) by auto
  define d where "d = bs @ 0 # rest"
  have d: "s @ 0 # rest = b # d" by (simp add: s d_def)
  have cmp: "strcmp_mem (b # d) q = Some (s = cstr q)"
    using strcmp_mem_run[OF assms(2), of rest q] by (simp only: d)
  have len: "strlen_mem (b # d) = Some (length s)"
    using strlen_mem_run[OF assms(2), of rest] by (simp only: d)
  have dr: "drop (length s + 1) (b # d) = rest"
    unfolding d[symmetric] by simp
  have "contains_loop (b # d) q =
     (if s = cstr q then Inr CACHE_CONTAINS_SUCCESS else contains_loop rest q)"
    by (cases "s = cstr q") (simp_all only: contains_loop.simps b0 if_False if_True cmp len dr option.case bool.case simp_thms)
  then show ?thesis by (simp only: d)
qed

lemma contains_loop_encode:
  "\<forall>s \<in> set items. s \<noteq> [] \<and> 0 \<notin> set s \<Longrightarrow>
   contains_loop (encode items @ tail) q =
     (if cstr q \<in> set items then Inr CACHE_CONTAINS_SUCCESS else contains_loop tail q)"
proof (induction items)
  case Nil
  then show ?case by (simp add: encode_def)
next
  case (Cons s items)
  have enc: "encode (s # items) @ tail = s @ 0 # (encode items @ tail)"
    by (simp add: encode_def)
  show ?case
    unfolding enc using Cons by (auto simp: contains_loop_item)
qed

lemma traverse_loop_item:
  assumes "s \<noteq> []" "0 \<notin> set s"
  shows "traverse_loop (s @ 0 # rest) =
     (case traverse_loop rest of Inl f \<Rightarrow> Inl f | Inr out \<Rightarrow> Inr (s # out))"
proof -
  obtain b bs where s: "s = b # bs" using assms(1) by (cases s) auto
  have b0: "b \<noteq> 0" using s assms(2) by auto
  define d where "d = bs @ 0 # rest"
  have d: "s @ 0 # rest = b # d" by (simp add: s d_def)
  have len: "strlen_mem (b # d) = Some (length s)"
    using strlen_mem_run[OF assms(2), of rest] by (simp only: d)
  have dr: "drop (length s + 1) (b # d) = rest"
    unfolding d[symmetric] by simp
  have tk: "take (length s) (b # d) = s"
    unfolding d[symmetric] by simp
  have "traverse_loop (b # d) =
     (case traverse_loop rest of Inl f \<Rightarrow> Inl f | Inr out \<Rightarrow> Inr (s # out))"
    by (simp only: traverse_loop.simps b0 if_False len dr tk option.case)
  then show ?thesis by (simp only: d)
qed

lemma traverse_loop_encode:
  "\<forall>s \<in> set items. s \<noteq> [] \<and> 0 \<notin> set s \<Longrightarrow>
   traverse_loop (encode items @ tail) =
     (case traverse_loop tail of Inl f \<Rightarrow> Inl f | Inr out \<Rightarrow> Inr (items @ out))"
proof (induction items)
  case Nil
  then show ?case by (simp add: encode_def split: sum.splits)
next
  case (Cons s items)
  have enc: "encode (s # items) @ tail = s @ 0 # (encode items @ tail)"
    by (simp add: encode_def)
  show ?case
    unfolding enc using Cons by (auto simp: traverse_loop_item split: sum.splits)
qed

subsection \<open>The capacity test in 64-bit arithmetic\<close>

lemma unat_u64_sum:
  fixes Lw x :: u64
  assumes "unat Lw + unat x + 17 < 2 ^ 64"
  shows "unat (16 + Lw + x + 1) = 17 + unat Lw + unat x"
proof -
  have a: "unat (16 + Lw) = 16 + unat Lw"
    using unat_add_lem[of 16 Lw] assms by simp
  have b: "unat (16 + Lw + x) = 16 + unat Lw + unat x"
    using unat_add_lem[of "16 + Lw" x] a assms by simp
  show ?thesis
    using unat_add_lem[of "16 + Lw + x" 1] b assms by simp
qed

lemma capacity_check:
  fixes H Lw x S :: u64
  assumes "unat Lw + unat x + 17 < 2 ^ 64"
  shows "(H + 16 + Lw + x + 1 < H \<or> H + 16 + Lw + x + 1 - H > S) \<longleftrightarrow>
         (2 ^ 64 \<le> unat H + 17 + unat Lw + unat x \<or> unat S < 17 + unat Lw + unat x)"
proof -
  define D where "D = 16 + Lw + x + 1"
  have D: "unat D = 17 + unat Lw + unat x" unfolding D_def by (rule unat_u64_sum[OF assms])
  have e1: "H + 16 + Lw + x + 1 = H + D" by (simp add: D_def)
  have e2: "H + D - H = D" by simp
  have w: "H + D < H \<longleftrightarrow> 2 ^ 64 \<le> unat H + unat D"
    using no_olen_add_nat[of H D] by auto
  have s: "S < D \<longleftrightarrow> unat S < unat D" by (simp add: word_less_nat_alt)
  show ?thesis unfolding e1 e2 w s D by auto
qed

lemma str_ok_unat:
  assumes "str_ok c str"
  shows "unat (of_nat (strlen str) :: u64) = strlen str"
proof -
  have "strlen str < 2 ^ 64" using assms by (simp add: str_ok_def)
  then show ?thesis by (simp add: unat_of_nat)
qed

subsection \<open>Consequences of the invariant\<close>

lemma layout_insert:
  assumes "a = encode items @ replicate k 0" "length s < k"
  shows "take (length (encode items)) a @ s @ drop (length (encode items) + length s) a =
         encode (items @ [s]) @ replicate (k - length s - 1) 0"
proof -
  have "k - length s = Suc (k - length s - 1)" using assms(2) by simp
  then have "replicate (k - length s) (0::byte) = 0 # replicate (k - length s - 1) 0"
    by (metis replicate_Suc)
  then show ?thesis by (simp add: assms(1) encode_snoc)
qed

lemma cache_inv_items:
  assumes "cache_inv c m"
  shows "\<forall>s \<in> set (stored m). s \<noteq> [] \<and> 0 \<notin> set s"
proof -
  have "\<forall>s \<in> set (stored m). 0 \<notin> set s"
    unfolding stored_def using split_nul_nz[of "[]"] by auto
  moreover have "[] \<notin> set (stored m)" using assms by (simp add: cache_inv_def)
  ultimately show ?thesis by metis
qed

lemma cache_inv_length:
  assumes "cache_inv c m"
  shows "length (encode (stored m)) = unat (length_f (header m))"
proof -
  let ?L = "unat (length_f (header m))"
  have e: "take ?L (arena m) = encode (stored m)" and b: "?L \<le> length (arena m)"
    using assms by (simp_all add: cache_inv_def)
  have "length (encode (stored m)) = length (take ?L (arena m))" by (simp only: e)
  also have "\<dots> = ?L" using b by simp
  finally show ?thesis .
qed

lemma cache_inv_layout:
  assumes "cache_inv c m"
  shows "arena m = encode (stored m) @
           replicate (unat (size_f c) - 16 - unat (length_f (header m))) 0"
proof -
  let ?L = "unat (length_f (header m))"
  have z: "drop ?L (arena m) = replicate (length (drop ?L (arena m))) 0"
    using assms by (intro all_zero_replicate) (simp add: cache_inv_def)
  have len: "length (drop ?L (arena m)) = unat (size_f c) - 16 - ?L"
    using assms by (simp add: cache_inv_def)
  have "arena m = take ?L (arena m) @ drop ?L (arena m)" by simp
  also have "\<dots> = encode (stored m) @ replicate (unat (size_f c) - 16 - ?L) 0"
    using z len assms by (simp add: cache_inv_def del: append_take_drop_id)
  finally show ?thesis .
qed

lemma cache_inv_count:
  assumes "cache_inv c m"
  shows "2 * unat (count (header m)) \<le> unat (length_f (header m))"
  using assms length_encode_ge[of "stored m"] cache_inv_items[OF assms] cache_inv_length[OF assms]
  by (simp add: cache_inv_def)

lemma cache_inv_intro:
  assumes "16 \<le> unat (size_f c)"
    and "arena m = encode items @ replicate k 0"
    and "length (encode items) + k = unat (size_f c) - 16"
    and "unat (length_f (header m)) = length (encode items)"
    and "\<forall>s \<in> set items. s \<noteq> [] \<and> 0 \<notin> set s"
    and "unat (count (header m)) = length items"
  shows "cache_inv c m \<and> stored m = items"
proof -
  have st: "stored m = items"
    using assms(2,4,5) by (simp add: stored_def split_nul_encode)
  have "[] \<notin> set items" using assms(5) by auto
  then show ?thesis
    unfolding cache_inv_def st using assms st by simp
qed

lemma inv_ok_bound:
  assumes "cache_inv c m" "str_ok c str"
  shows "unat (length_f (header m)) + unat (of_nat (strlen str) :: u64) + 17 < 2 ^ 64"
  using assms unfolding str_ok_unat[OF assms(2)] cache_inv_def str_ok_def by linarith

lemma u_cache_insert_rejects:
  assumes "cache_inv c m" "str_ok c str" "rejects c m str"
  shows "u_cache_insert c m str = Inr (CACHE_INSERTION_FAILED, m)"
proof (cases "strlen str = 0")
  case True
  then show ?thesis by (simp add: u_cache_insert_def)
next
  case False
  have u: "unat (of_nat (strlen str) :: u64) = strlen str" by (rule str_ok_unat[OF assms(2)])
  have chk: "hdr c + 16 + length_f (header m) + of_nat (strlen str) + 1 < hdr c \<or>
        size_f c < hdr c + 16 + length_f (header m) + of_nat (strlen str) + 1 - hdr c"
    unfolding capacity_check[OF inv_ok_bound[OF assms(1,2)]] u
    using assms(3) False unfolding rejects_def by linarith
  then show ?thesis
    unfolding u_cache_insert_def Let_def by (simp only: chk if_True if_cancel)
qed

lemma u_cache_insert_accepts:
  assumes "cache_inv c m" "str_ok c str" "\<not> rejects c m str"
  shows "u_cache_insert c m str = Inr (CACHE_INSERTION_SUCCESS, appended m str)"
proof -
  have u: "unat (of_nat (strlen str) :: u64) = strlen str" by (rule str_ok_unat[OF assms(2)])
  have nz: "(of_nat (strlen str) :: u64) \<noteq> 0"
    using assms(3) u by (auto simp: rejects_def)
  have chk: "\<not> (hdr c + 16 + length_f (header m) + of_nat (strlen str) + 1 < hdr c \<or>
        size_f c < hdr c + 16 + length_f (header m) + of_nat (strlen str) + 1 - hdr c)"
    unfolding capacity_check[OF inv_ok_bound[OF assms(1,2)]] u
    using assms(3) unfolding rejects_def by linarith
  have fits: "unat (length_f (header m)) + strlen str \<le> length (arena m)"
    using assms(1,3) unfolding rejects_def cache_inv_def by linarith
  have w: "write_bytes (arena m) (unat (length_f (header m))) (strncpy str (strlen str)) =
        Inr (take (unat (length_f (header m))) (arena m) @ take (strlen str) str @
              drop (unat (length_f (header m)) + strlen str) (arena m))"
    using fits by (simp add: write_bytes_def length_strncpy strncpy_strlen take_strlen length_cstr)
  show ?thesis
    unfolding u_cache_insert_def Let_def u
    using nz chk by (simp add: w appended_def)
qed

lemma appended_header:
  assumes "cache_inv c m" "str_ok c str"
  shows "unat (length_f (header (appended m str))) =
           unat (length_f (header m)) + strlen str + 1"
    and "unat (count (header (appended m str))) = unat (count (header m)) + 1"
proof -
  have b: "unat (length_f (header m)) + strlen str + 17 < 2 ^ 64"
    using inv_ok_bound[OF assms] str_ok_unat[OF assms(2)] by simp
  have a1: "unat (length_f (header m) + of_nat (strlen str)) =
        unat (length_f (header m)) + strlen str"
    using unat_add_lem[of "length_f (header m)" "of_nat (strlen str) :: u64"] b
      str_ok_unat[OF assms(2)] by simp
  have a2: "unat (length_f (header m) + of_nat (strlen str) + 1) =
        unat (length_f (header m)) + strlen str + 1"
    using unat_add_lem[of "length_f (header m) + of_nat (strlen str)" "1 :: u64"] a1 b by simp
  show "unat (length_f (header (appended m str))) =
           unat (length_f (header m)) + strlen str + 1"
    using a2 by (simp add: appended_def)
  have "unat (count (header m)) + 1 < 2 ^ 64"
    using cache_inv_count[OF assms(1)] b by simp
  then have "unat (count (header m) + 1) = unat (count (header m)) + 1"
    using unat_add_lem[of "count (header m)" "1 :: u64"] by simp
  then show "unat (count (header (appended m str))) = unat (count (header m)) + 1"
    by (simp add: appended_def)
qed

lemma appended_inv:
  assumes "cache_inv c m" "str_ok c str" "\<not> rejects c m str"
  shows "cache_inv c (appended m str) \<and> stored (appended m str) = stored m @ [cstr str]"
proof -
  let ?L = "unat (length_f (header m))"
  let ?n = "strlen str"
  let ?k = "unat (size_f c) - 16 - ?L"
  have n: "?n = length (cstr str)" by (rule strlen_cstr)
  have L: "length (encode (stored m)) = ?L" by (rule cache_inv_length[OF assms(1)])
  have lt: "length (cstr str) < ?k"
    using assms(3) unfolding rejects_def n by linarith
  have ne: "cstr str \<noteq> []" using assms(3) by (auto simp: rejects_def n)
  have 1: "16 \<le> unat (size_f c)" using assms(1) by (simp add: cache_inv_def)
  have 2: "arena (appended m str) =
      encode (stored m @ [cstr str]) @ replicate (?k - length (cstr str) - 1) 0"
    using layout_insert[OF cache_inv_layout[OF assms(1)] lt]
    by (simp add: appended_def take_strlen L n[symmetric])
  have 3: "length (encode (stored m @ [cstr str])) + (?k - length (cstr str) - 1) =
      unat (size_f c) - 16"
    using lt L by (simp add: encode_snoc)
  have 4: "unat (length_f (header (appended m str))) = length (encode (stored m @ [cstr str]))"
    using appended_header(1)[OF assms(1,2)] L by (simp add: encode_snoc n)
  have 5: "\<forall>s \<in> set (stored m @ [cstr str]). s \<noteq> [] \<and> 0 \<notin> set s"
    using cache_inv_items[OF assms(1)] ne cstr_nz by auto
  have 6: "unat (count (header (appended m str))) = length (stored m @ [cstr str])"
    using appended_header(2)[OF assms(1,2)] assms(1) by (simp add: cache_inv_def)
  show ?thesis by (rule cache_inv_intro[OF 1 2 3 4 5 6])
qed

lemma u_cache_contains_inv:
  assumes "cache_inv c m"
  shows "u_cache_contains c m q =
     (if cstr q \<in> set (stored m) then Inr CACHE_CONTAINS_SUCCESS
      else if unat (length_f (header m)) = unat (size_f c) - 16 then Inl ReadPastRegion
      else Inr CACHE_CONTAINS_FAILED)"
proof -
  let ?k = "unat (size_f c) - 16 - unat (length_f (header m))"
  have le: "unat (length_f (header m)) \<le> unat (size_f c) - 16"
    using assms by (simp add: cache_inv_def)
  have t: "contains_loop (replicate ?k 0) q =
      (if ?k = 0 then Inl ReadPastRegion else Inr CACHE_CONTAINS_FAILED)"
    by (cases ?k) simp_all
  have "u_cache_contains c m q = contains_loop (encode (stored m) @ replicate ?k 0) q"
    unfolding u_cache_contains_def using cache_inv_layout[OF assms] by simp
  then show ?thesis
    unfolding contains_loop_encode[OF cache_inv_items[OF assms]] t using le by auto
qed

lemma cache_debug_traverse_inv:
  assumes "cache_inv c m"
  shows "cache_debug_traverse (Some c) m =
     (if unat (length_f (header m)) = unat (size_f c) - 16 then Inl ReadPastRegion
      else Inr (stored m))"
proof -
  let ?k = "unat (size_f c) - 16 - unat (length_f (header m))"
  have le: "unat (length_f (header m)) \<le> unat (size_f c) - 16"
    using assms by (simp add: cache_inv_def)
  have t: "traverse_loop (replicate ?k 0) =
      (if ?k = 0 then Inl ReadPastRegion else Inr [])"
    by (cases ?k) simp_all
  have "cache_debug_traverse (Some c) m = traverse_loop (encode (stored m) @ replicate ?k 0)"
    unfolding cache_debug_traverse_def using cache_inv_layout[OF assms] by simp
  then show ?thesis
    unfolding traverse_loop_encode[OF cache_inv_items[OF assms]] t using le by auto
qed

subsection \<open>Creation, single operations and sequences\<close>



lemma zero_mapping_inv:
  assumes "16 \<le> unat (size_f c)"
    and "m = \<lparr>header = \<lparr>length_f = 0, count = 0\<rparr>, arena = replicate (unat (size_f c) - 16) 0\<rparr>"
  shows "cache_inv c m \<and> stored m = []"
  by (rule cache_inv_intro[where k = "unat (size_f c) - 16"])
     (simp_all add: assms encode_def)




lemma test_fresh_inv: "cache_inv test_cache test_fresh \<and> stored test_fresh = []"
  by (rule zero_mapping_inv) (simp_all add: test_cache_def test_fresh_def)


lemma step_inv:
  assumes "cache_inv c m" "op_ok c x"
  shows "(\<exists>f. step c x m = Inl f \<and> f = ReadPastRegion) \<or>
         (\<exists>ret. step c x m = Inr (ret, m) \<and> ret \<noteq> CACHE_INSERTION_SUCCESS) \<or>
         (\<exists>i. step c x m = Inr (CACHE_INSERTION_SUCCESS, appended m i) \<and> str_ok c i \<and>
              \<not> rejects c m i)"
proof (cases x)
  case (Insert item)
  show ?thesis
  proof (cases item)
    case None
    then show ?thesis using Insert by (simp add: cache_insert_def cache_codes)
  next
    case (Some i)
    then have ok: "str_ok c i" using assms(2) Insert by simp
    show ?thesis
    proof (cases "rejects c m i")
      case True
      then show ?thesis
        using Insert Some u_cache_insert_rejects[OF assms(1) ok]
        by (simp add: cache_insert_def cache_codes)
    next
      case False
      then show ?thesis
        using Insert Some ok u_cache_insert_accepts[OF assms(1) ok]
        by (auto simp add: cache_insert_def)
    qed
  qed
next
  case (Contains item)
  show ?thesis
  proof (cases item)
    case None
    then show ?thesis using Contains by (simp add: cache_contains_def cache_codes)
  next
    case (Some i)
    then show ?thesis
      using Contains u_cache_contains_inv[OF assms(1), of i]
      by (simp add: cache_contains_def cache_codes)
  qed
next
  case (Notcontains_insert item)
  show ?thesis
  proof (cases item)
    case None
    then show ?thesis using Notcontains_insert by (simp add: cache_notcontains_insert_def cache_codes)
  next
    case (Some i)
    then have ok: "str_ok c i" using assms(2) Notcontains_insert by simp
    show ?thesis
    proof (cases "rejects c m i")
      case True
      then show ?thesis
        using Notcontains_insert Some u_cache_insert_rejects[OF assms(1) ok]
          u_cache_contains_inv[OF assms(1), of i]
        by (simp add: cache_notcontains_insert_def cache_codes)
    next
      case False
      then show ?thesis
        using Notcontains_insert Some ok u_cache_insert_accepts[OF assms(1) ok]
          u_cache_contains_inv[OF assms(1), of i]
        by (auto simp add: cache_notcontains_insert_def cache_codes)
    qed
  qed
next
  case Debug_traverse
  then show ?thesis
    using cache_debug_traverse_inv[OF assms(1)] by (simp add: cache_codes)
qed


lemma run_inv:
  assumes "cache_inv c m" "\<forall>x \<in> set ops. op_ok c x" "unat (count (header m)) = k"
  shows "\<exists>m' k'. run c ops (m, k) = Inr (m', k') \<and> cache_inv c m' \<and>
           unat (count (header m')) = k'"
  using assms
proof (induction ops arbitrary: m k)
  case Nil
  then show ?case by simp
next
  case (Cons x ops)
  have ok: "op_ok c x" and oks: "\<forall>x \<in> set ops. op_ok c x" using Cons.prems(2) by simp_all
  from step_inv[OF Cons.prems(1) ok]
  consider (fault) "step c x m = Inl ReadPastRegion"
    | (same) ret where "step c x m = Inr (ret, m)" "ret \<noteq> CACHE_INSERTION_SUCCESS"
    | (app) i where "step c x m = Inr (CACHE_INSERTION_SUCCESS, appended m i)" "str_ok c i"
        "\<not> rejects c m i"
    by blast
  then show ?case
  proof cases
    case fault
    then have "run c (x # ops) (m, k) = run c ops (m, k)" by simp
    then show ?thesis using Cons.IH[OF Cons.prems(1) oks Cons.prems(3)] by simp
  next
    case same
    then have "run c (x # ops) (m, k) = run c ops (m, k)" by simp
    then show ?thesis using Cons.IH[OF Cons.prems(1) oks Cons.prems(3)] by simp
  next
    case app
    then have r: "run c (x # ops) (m, k) = run c ops (appended m i, Suc k)" by simp
    have inv': "cache_inv c (appended m i)" using appended_inv[OF Cons.prems(1) app(2,3)] by simp
    have cnt: "unat (count (header (appended m i))) = Suc k"
      using appended_header(2)[OF Cons.prems(1) app(2)] Cons.prems(3) by simp
    show ?thesis using Cons.IH[OF inv' oks cnt] r by simp
  qed
qed

lemma run_snoc:
  assumes "run c xs s = Inr (m, k)"
  shows "run c (xs @ [x]) s = run c [x] (m, k)"
  using assms
proof (induction xs arbitrary: s)
  case Nil
  then show ?case by simp
next
  case (Cons y ys)
  obtain m0 k0 where s: "s = (m0, k0)" by (cases s)
  show ?case
  proof (cases "step c y m0")
    case (Inl f)
    then show ?thesis using Cons s by (cases f) simp_all
  next
    case (Inr a)
    then show ?thesis using Cons s by (cases a) simp
  qed
qed

lemma cache_insert_cases:
  assumes "cache_inv c m" "str_ok c s"
  shows "cache_insert (Some c) m (Some s) =
     (if rejects c m s then Inr (CACHE_INSERTION_FAILED, m)
      else Inr (CACHE_INSERTION_SUCCESS, appended m s))"
  using u_cache_insert_rejects[OF assms] u_cache_insert_accepts[OF assms]
  by (simp add: cache_insert_def)

lemma cache_insert_success:
  assumes "cache_inv c m" "str_ok c s"
    and "cache_insert (Some c) m (Some s) = Inr (CACHE_INSERTION_SUCCESS, m')"
  shows "\<not> rejects c m s \<and> m' = appended m s"
proof (cases "rejects c m s")
  case True
  then have "cache_insert (Some c) m (Some s) = Inr (CACHE_INSERTION_FAILED, m)"
    by (simp add: cache_insert_cases[OF assms(1,2)])
  then show ?thesis using assms(3) by (simp add: cache_codes)
next
  case False
  then show ?thesis using assms(3) by (simp add: cache_insert_cases[OF assms(1,2)])
qed

lemma cache_contains_inv:
  assumes "cache_inv c m"
  shows "cache_contains (Some c) m (Some q) =
     (if cstr q \<in> set (stored m) then Inr (CACHE_CONTAINS_SUCCESS, m)
      else if unat (length_f (header m)) = unat (size_f c) - 16 then Inl ReadPastRegion
      else Inr (CACHE_CONTAINS_FAILED, m))"
  by (simp add: cache_contains_def u_cache_contains_inv[OF assms])

lemma strlen_replicate: "b \<noteq> 0 \<Longrightarrow> strlen (replicate n b) = n"
  by (induction n) auto


lemma str_big_facts: "strlen str_big = 4080" "str_ok test_cache str_big"
  "rejects test_cache test_fresh str_big"
  by (simp_all add: str_big_def strlen_replicate str_ok_def rejects_def test_cache_def
      test_fresh_def)

lemma str_AAA_facts: "strlen str_AAA = 3" "cstr str_AAA = str_AAA" "str_ok test_cache str_AAA"
  "\<not> rejects test_cache test_fresh str_AAA"
  by (simp_all add: str_AAA_def cstr_def str_ok_def rejects_def test_cache_def test_fresh_def)

lemma cache_inv_zero_at:
  assumes "cache_inv c m" "unat (length_f (header m)) \<le> i" "i < length (arena m)"
  shows "arena m ! i = 0"
proof -
  let ?L = "unat (length_f (header m))"
  have z: "\<forall>b \<in> set (drop ?L (arena m)). b = 0" using assms(1) by (simp add: cache_inv_def)
  have "i - ?L < length (drop ?L (arena m))" using assms(2,3) by (simp add: less_diff_conv2)
  then have "drop ?L (arena m) ! (i - ?L) \<in> set (drop ?L (arena m))" by (rule nth_mem)
  moreover have "drop ?L (arena m) ! (i - ?L) = arena m ! i" using assms(2,3) by simp
  ultimately show ?thesis using z by simp
qed

lemma cache_notcontains_insert_inv:
  assumes "cache_inv c m" "str_ok c s"
  shows "cache_notcontains_insert (Some c) m (Some s) =
     (if cstr s \<in> set (stored m) then Inr (CACHE_CONTAINS_SUCCESS, m)
      else if unat (length_f (header m)) = unat (size_f c) - 16 then Inl ReadPastRegion
      else if rejects c m s then Inr (CACHE_INSERTION_FAILED, m)
      else Inr (CACHE_INSERTION_SUCCESS, appended m s))"
  using u_cache_insert_rejects[OF assms] u_cache_insert_accepts[OF assms]
  by (simp add: cache_notcontains_insert_def u_cache_contains_inv[OF assms(1)] cache_codes)

lemma strcmp_mem_empty_query:
  "strlen q = 0 \<Longrightarrow> b \<noteq> 0 \<Longrightarrow> strcmp_mem (b # bs) q = Some False"
  by (cases q) (auto split: if_splits)

lemma contains_loop_empty_query:
  "strlen q = 0 \<Longrightarrow>
   contains_loop d q = Inr CACHE_CONTAINS_FAILED \<or> contains_loop d q = Inl ReadPastRegion"
proof (induction d q rule: contains_loop.induct)
  case (1 item)
  then show ?case by simp
next
  case (2 b bs item)
  show ?case
  proof (cases "b = 0")
    case True
    then show ?thesis by simp
  next
    case False
    have cmp: "strcmp_mem (b # bs) item = Some False"
      by (rule strcmp_mem_empty_query[OF "2.prems" False])
    show ?thesis
    proof (cases "strlen_mem (b # bs)")
      case None
      have "contains_loop (b # bs) item = Inl ReadPastRegion"
        by (simp only: contains_loop.simps False if_False cmp None option.case bool.case)
      then show ?thesis by simp
    next
      case (Some n)
      have "contains_loop (b # bs) item = contains_loop (drop (n + 1) (b # bs)) item"
        by (simp only: contains_loop.simps False if_False cmp Some option.case bool.case)
      then show ?thesis
        using "2.IH"[OF False cmp _ Some] "2.prems" by simp
    qed
  qed
qed

subsection \<open>The test cache filled to its last byte\<close>

lemma fill_AAA:
  assumes "k \<le> 1020"
  shows "\<exists>m. run test_cache (replicate k (Insert (Some str_AAA))) (test_fresh, 0) = Inr (m, k) \<and>
           cache_inv test_cache m \<and> unat (length_f (header m)) = 4 * k \<and>
           stored m = replicate k str_AAA"
  using assms
proof (induction k)
  case 0
  then show ?case using test_fresh_inv by (simp add: test_fresh_def)
next
  case (Suc k)
  then obtain m where r: "run test_cache (replicate k (Insert (Some str_AAA))) (test_fresh, 0) =
        Inr (m, k)"
    and inv: "cache_inv test_cache m" and L: "unat (length_f (header m)) = 4 * k"
    and st: "stored m = replicate k str_AAA"
    by auto
  have acc: "\<not> rejects test_cache m str_AAA"
    using Suc.prems by (simp add: rejects_def L str_AAA_facts(1) test_cache_def)
  have ins: "cache_insert (Some test_cache) m (Some str_AAA) =
      Inr (CACHE_INSERTION_SUCCESS, appended m str_AAA)"
    using cache_insert_cases[OF inv str_AAA_facts(3)] acc by simp
  have "replicate (Suc k) (Insert (Some str_AAA)) =
      replicate k (Insert (Some str_AAA)) @ [Insert (Some str_AAA)]"
    by (simp add: replicate_append_same)
  then have r': "run test_cache (replicate (Suc k) (Insert (Some str_AAA))) (test_fresh, 0) =
      Inr (appended m str_AAA, Suc k)"
    by (simp only: run_snoc[OF r]) (simp add: ins)
  have "cache_inv test_cache (appended m str_AAA)"
    and "stored (appended m str_AAA) = replicate (Suc k) str_AAA"
    using appended_inv[OF inv str_AAA_facts(3) acc] st
    by (simp_all add: str_AAA_facts(2) replicate_append_same)
  moreover have "unat (length_f (header (appended m str_AAA))) = 4 * Suc k"
    using appended_header(1)[OF inv str_AAA_facts(3)] L by (simp add: str_AAA_facts(1))
  ultimately show ?case using r' by simp
qed

lemma test_full_run:
  "run test_cache (replicate 1020 (Insert (Some str_AAA))) (test_fresh, 0) =
     Inr (test_full, 1020)"
  using fill_AAA[of 1020] by (auto simp: test_full_def)

lemma test_full_facts:
  "cache_inv test_cache test_full"
  "unat (length_f (header test_full)) = 4080"
  "stored test_full = replicate 1020 str_AAA"
  using fill_AAA[of 1020] by (auto simp: test_full_def)

subsection \<open>Several handles\<close>





lemma u_cache_insert_frame:
  assumes "strlen s < 2 ^ 64"
    and "u_cache_insert c m s = Inr (CACHE_INSERTION_SUCCESS, m')"
  shows "strlen s \<noteq> 0 \<and> unat (length_f (header m)) + strlen s \<le> length (arena m) \<and>
         m' = appended m s"
proof -
  let ?L = "unat (length_f (header m))"
  have u: "unat (of_nat (strlen s) :: u64) = strlen s"
    using assms(1) by (simp add: unat_of_nat)
  have d: "CACHE_INSERTION_FAILED \<noteq> CACHE_INSERTION_SUCCESS" by (simp add: cache_codes)
  have nz: "(of_nat (strlen s) :: u64) \<noteq> 0"
    using assms(2) d by (auto simp: u_cache_insert_def Let_def)
  have n0: "strlen s \<noteq> 0"
  proof
    assume "strlen s = 0"
    then have "(of_nat (strlen s) :: u64) = 0" by simp
    then show False using nz by simp
  qed
  have fits: "?L + strlen s \<le> length (arena m)"
  proof (rule ccontr)
    assume "\<not> ?L + strlen s \<le> length (arena m)"
    then have "write_bytes (arena m) ?L (strncpy s (strlen s)) = Inl WritePastRegion"
      by (simp add: write_bytes_def length_strncpy)
    then show False
      using assms(2) d nz unfolding u_cache_insert_def Let_def u
      by (simp split: if_splits)
  qed
  then have w: "write_bytes (arena m) ?L (strncpy s (strlen s)) =
      Inr (take ?L (arena m) @ take (strlen s) s @ drop (?L + strlen s) (arena m))"
    by (simp add: write_bytes_def length_strncpy strncpy_strlen take_strlen length_cstr)
  have "m' = appended m s"
    using assms(2) d nz unfolding u_cache_insert_def Let_def u w
    by (simp add: appended_def split: if_splits)
  then show ?thesis using n0 fits by simp
qed



lemma frame_nth:
  assumes "p + length bs \<le> length d" "i < length d" "i < p \<or> p + length bs \<le> i"
  shows "(take p d @ bs @ drop (p + length bs) d) ! i = d ! i"
proof (cases "i < p")
  case True
  then show ?thesis using assms(1) by (simp add: nth_append)
next
  case False
  then have ge: "p + length bs \<le> i" using assms(3) by simp
  have lp: "length (take p d) = p" using assms(1) by simp
  have 1: "(take p d @ bs @ drop (p + length bs) d) ! i =
        (bs @ drop (p + length bs) d) ! (i - p)"
    using False unfolding nth_append lp by simp
  have "\<not> i - p < length bs" using ge by linarith
  then have 2: "(bs @ drop (p + length bs) d) ! (i - p) =
        drop (p + length bs) d ! (i - p - length bs)"
    by (simp add: nth_append)
  have 3: "drop (p + length bs) d ! (i - p - length bs) = d ! i"
    using ge assms(1,2) by simp
  show ?thesis using 1 2 3 by simp
qed

lemma test_dirty_insert:
  "cache_insert (Some test_cache) test_dirty (Some str_AAA) =
     Inr (CACHE_INSERTION_SUCCESS,
          \<lparr>header = \<lparr>length_f = 4, count = 1\<rparr>,
           arena = [0x41, 0x41, 0x41] @ replicate 4077 0xFF\<rparr>)"
proof -
  have b: "strncpy str_AAA 3 = str_AAA"
    using strncpy_strlen[of str_AAA] by (simp add: str_AAA_facts(1,2))
  have "cache_insert (Some test_cache) test_dirty (Some str_AAA) =
     Inr (CACHE_INSERTION_SUCCESS,
          \<lparr>header = \<lparr>length_f = 4, count = 1\<rparr>, arena = str_AAA @ replicate 4077 0xFF\<rparr>)"
    by (simp add: cache_insert_def u_cache_insert_def Let_def write_bytes_def
        str_AAA_facts(1) b length_cstr[of str_AAA, unfolded str_AAA_facts(2)]
        test_cache_def test_dirty_def)
  then show ?thesis by (simp add: str_AAA_def)
qed

section \<open>The claims\<close>

subsection \<open>C1: zero fill and header invariant\<close>




subsection \<open>C2: insert, then contains\<close>

text \<open>
  Claim C2 as stated does not hold: a non-empty string that is not stored may be too long
  for the arena. In the fresh test cache (4080 arena bytes) a string of 4080 bytes is
  rejected, \<open>count\<close> stays as it was and the string is still not found.
\<close>

theorem C2_counterexample:
  "strlen str_big \<noteq> 0 \<and> cstr str_big \<notin> set (stored test_fresh) \<and>
   cache_insert (Some test_cache) test_fresh (Some str_big) =
     Inr (CACHE_INSERTION_FAILED, test_fresh) \<and>
   cache_contains (Some test_cache) test_fresh (Some str_big) =
     Inr (CACHE_CONTAINS_FAILED, test_fresh) \<and>
   CACHE_CONTAINS_FAILED \<noteq> CACHE_CONTAINS_SUCCESS \<and>
   CACHE_INSERTION_FAILED \<noteq> CACHE_INSERTION_SUCCESS \<and>
   count (header test_fresh) \<noteq> count (header test_fresh) + 1"
proof -
  have inv: "cache_inv test_cache test_fresh" and st: "stored test_fresh = []"
    using test_fresh_inv by simp_all
  have "cache_insert (Some test_cache) test_fresh (Some str_big) =
     Inr (CACHE_INSERTION_FAILED, test_fresh)"
    using cache_insert_cases[OF inv str_big_facts(2)] str_big_facts(3) by simp
  moreover have "cache_contains (Some test_cache) test_fresh (Some str_big) =
     Inr (CACHE_CONTAINS_FAILED, test_fresh)"
    unfolding cache_contains_inv[OF inv] st by (simp add: test_fresh_def test_cache_def)
  ultimately show ?thesis using st str_big_facts(1) by (simp add: cache_codes)
qed

text \<open>
  Claim C2, amended: for every non-empty string \<open>s\<close> that is not stored and whose insert
  succeeds, \<open>contains s\<close> returns not-found before the insert and found after it, and
  \<open>count\<close> grows by exactly one.
\<close>

theorem C2_insert_then_contains:
  assumes "cache_inv c m" "str_ok c s"
    and "strlen s \<noteq> 0" "cstr s \<notin> set (stored m)"
    and "cache_insert (Some c) m (Some s) = Inr (CACHE_INSERTION_SUCCESS, m')"
  shows "cache_contains (Some c) m (Some s) = Inr (CACHE_CONTAINS_FAILED, m) \<and>
         cache_contains (Some c) m' (Some s) = Inr (CACHE_CONTAINS_SUCCESS, m') \<and>
         count (header m') = count (header m) + 1 \<and>
         unat (count (header m')) = unat (count (header m)) + 1"
proof -
  from cache_insert_success[OF assms(1,2,5)]
  have acc: "\<not> rejects c m s" and m': "m' = appended m s" by simp_all
  have inv': "cache_inv c m'" and st': "stored m' = stored m @ [cstr s]"
    using appended_inv[OF assms(1,2) acc] m' by simp_all
  have room: "unat (length_f (header m)) \<noteq> unat (size_f c) - 16"
    using acc unfolding rejects_def by linarith
  have before: "cache_contains (Some c) m (Some s) = Inr (CACHE_CONTAINS_FAILED, m)"
    unfolding cache_contains_inv[OF assms(1)] using assms(4) room by simp
  have after: "cache_contains (Some c) m' (Some s) = Inr (CACHE_CONTAINS_SUCCESS, m')"
    unfolding cache_contains_inv[OF inv'] st' by simp
  have "count (header m') = count (header m) + 1" by (simp add: m' appended_def)
  moreover have "unat (count (header m')) = unat (count (header m)) + 1"
    using appended_header(2)[OF assms(1,2)] m' by simp
  ultimately show ?thesis using before after by simp
qed

text \<open>C2 at the fresh test cache and the string \<^verbatim>\<open>"AAA"\<close>.\<close>

theorem C2_witness:
  "cache_contains (Some test_cache) test_fresh (Some str_AAA) =
     Inr (CACHE_CONTAINS_FAILED, test_fresh) \<and>
   cache_contains (Some test_cache) (appended test_fresh str_AAA) (Some str_AAA) =
     Inr (CACHE_CONTAINS_SUCCESS, appended test_fresh str_AAA) \<and>
   count (header (appended test_fresh str_AAA)) = 1"
proof -
  have inv: "cache_inv test_cache test_fresh" and st: "stored test_fresh = []"
    using test_fresh_inv by simp_all
  have h3: "strlen str_AAA \<noteq> 0" by (simp add: str_AAA_def)
  have h4: "cstr str_AAA \<notin> set (stored test_fresh)" by (simp add: st)
  have h5: "cache_insert (Some test_cache) test_fresh (Some str_AAA) =
      Inr (CACHE_INSERTION_SUCCESS, appended test_fresh str_AAA)"
    using cache_insert_cases[OF inv str_AAA_facts(3)] str_AAA_facts(4) by simp
  show ?thesis
    using C2_insert_then_contains[OF inv str_AAA_facts(3) h3 h4 h5]
    by (simp add: test_fresh_def)
qed

subsection \<open>C3: what a successful insert writes\<close>

text \<open>
  Claim C3. Whatever the mapping holds, zeros or not, a successful insert of \<open>s\<close> (which
  is then non-empty) stores exactly the \<open>strlen s\<close> bytes of \<open>s\<close>, none of them NUL, at
  offset \<open>length\<close> of the arena, and every other arena byte stays as it was, the byte after
  the copy among them: no terminator is written. \<open>length\<close> advances by \<open>strlen s + 1\<close> and
  \<open>count\<close> by 1. Where the invariant holds, the byte after the copy was zero before, so it
  is the terminator afterwards, and \<open>length\<close> does not wrap.
\<close>

theorem C3_insert_copies_and_advances:
  assumes "strlen s < 2 ^ 64"
    and "cache_insert (Some c) m (Some s) = Inr (CACHE_INSERTION_SUCCESS, m')"
  shows "strlen s \<noteq> 0 \<and>
         unat (length_f (header m)) + strlen s \<le> length (arena m) \<and>
         arena m' = take (unat (length_f (header m))) (arena m) @ take (strlen s) s @
                    drop (unat (length_f (header m)) + strlen s) (arena m) \<and>
         0 \<notin> set (take (strlen s) s) \<and>
         length (arena m') = length (arena m) \<and>
         (\<forall>i. i < length (arena m) \<and>
              (i < unat (length_f (header m)) \<or> unat (length_f (header m)) + strlen s \<le> i) \<longrightarrow>
              arena m' ! i = arena m ! i) \<and>
         length_f (header m') = length_f (header m) + of_nat (strlen s) + 1 \<and>
         count (header m') = count (header m) + 1 \<and>
         (cache_inv c m \<and> str_ok c s \<longrightarrow>
            unat (length_f (header m)) + strlen s < length (arena m) \<and>
            arena m ! (unat (length_f (header m)) + strlen s) = 0 \<and>
            arena m' ! (unat (length_f (header m)) + strlen s) = 0 \<and>
            unat (length_f (header m')) = unat (length_f (header m)) + strlen s + 1)"
proof -
  let ?L = "unat (length_f (header m))"
  let ?n = "strlen s"
  have ins: "u_cache_insert c m s = Inr (CACHE_INSERTION_SUCCESS, m')"
    using assms(2) by (simp add: cache_insert_def)
  from u_cache_insert_frame[OF assms(1) ins]
  have n0: "?n \<noteq> 0" and fits: "?L + ?n \<le> length (arena m)" and m': "m' = appended m s"
    by simp_all
  have a': "arena m' = take ?L (arena m) @ take ?n s @ drop (?L + ?n) (arena m)"
    by (simp add: m' appended_def)
  have lt: "length (take ?n s) = ?n" by (simp add: take_strlen length_cstr)
  have nz: "0 \<notin> set (take ?n s)" by (simp add: take_strlen cstr_nz)
  have len: "length (arena m') = length (arena m)"
    unfolding a' using fits lt by simp
  have frame: "\<forall>i. i < length (arena m) \<and> (i < ?L \<or> ?L + ?n \<le> i) \<longrightarrow>
      arena m' ! i = arena m ! i"
  proof (intro allI impI)
    fix i assume i: "i < length (arena m) \<and> (i < ?L \<or> ?L + ?n \<le> i)"
    show "arena m' ! i = arena m ! i"
      unfolding a' using frame_nth[of ?L "take ?n s" "arena m" i] fits i lt by simp
  qed
  have h: "length_f (header m') = length_f (header m) + of_nat ?n + 1"
    "count (header m') = count (header m) + 1"
    by (simp_all add: m' appended_def)
  have tm: "cache_inv c m \<and> str_ok c s \<longrightarrow>
            ?L + ?n < length (arena m) \<and> arena m ! (?L + ?n) = 0 \<and>
            arena m' ! (?L + ?n) = 0 \<and> unat (length_f (header m')) = ?L + ?n + 1"
  proof (intro impI)
    assume a: "cache_inv c m \<and> str_ok c s"
    then have inv: "cache_inv c m" and ok: "str_ok c s" by simp_all
    have acc: "\<not> rejects c m s"
      using cache_insert_success[OF inv ok assms(2)] by simp
    have la: "length (arena m) = unat (size_f c) - 16" using inv by (simp add: cache_inv_def)
    have room: "?L + ?n < length (arena m)"
      using acc unfolding rejects_def la by linarith
    have z: "arena m ! (?L + ?n) = 0"
      by (rule cache_inv_zero_at[OF inv _ room]) simp
    have "arena m' ! (?L + ?n) = arena m ! (?L + ?n)" using frame room by simp
    then have z': "arena m' ! (?L + ?n) = 0" using z by simp
    have L': "unat (length_f (header m')) = ?L + ?n + 1"
      using appended_header(1)[OF inv ok] m' by simp
    show "?L + ?n < length (arena m) \<and> arena m ! (?L + ?n) = 0 \<and>
            arena m' ! (?L + ?n) = 0 \<and> unat (length_f (header m')) = ?L + ?n + 1"
      using room z z' L' by simp
  qed
  show ?thesis using n0 fits a' nz len frame h tm by blast
qed

text \<open>
  C3 at the test cache and the string \<^verbatim>\<open>"AAA"\<close>: on a file of \<open>0xFF\<close> bytes the byte
  after the copy stays \<open>0xFF\<close>; on the fresh cache it is the zero that was there.
\<close>

theorem C3_witness:
  "cache_insert (Some test_cache) test_dirty (Some str_AAA) =
     Inr (CACHE_INSERTION_SUCCESS,
          \<lparr>header = \<lparr>length_f = 4, count = 1\<rparr>,
           arena = [0x41, 0x41, 0x41] @ replicate 4077 0xFF\<rparr>) \<and>
   arena test_dirty ! 3 = 0xFF \<and>
   ([0x41, 0x41, 0x41] @ replicate 4077 (0xFF :: byte)) ! 3 = 0xFF \<and>
   arena (appended test_fresh str_AAA) = [0x41, 0x41, 0x41] @ replicate 4077 0 \<and>
   length_f (header (appended test_fresh str_AAA)) = 4 \<and>
   count (header (appended test_fresh str_AAA)) = 1 \<and>
   arena (appended test_fresh str_AAA) ! 3 = 0"
proof -
  have n: "strlen str_AAA < 2 ^ 64" by (simp add: str_AAA_facts(1))
  have inv: "cache_inv test_cache test_fresh" using test_fresh_inv by simp
  have h: "cache_insert (Some test_cache) test_fresh (Some str_AAA) =
      Inr (CACHE_INSERTION_SUCCESS, appended test_fresh str_AAA)"
    using cache_insert_cases[OF inv str_AAA_facts(3)] str_AAA_facts(4) by simp
  have d3: "arena test_dirty ! 3 = 0xFF" by (simp add: test_dirty_def)
  have l: "(3::nat) < length (arena test_dirty) \<and>
      (3 < unat (length_f (header test_dirty)) \<or>
       unat (length_f (header test_dirty)) + strlen str_AAA \<le> 3)"
    by (simp add: test_dirty_def str_AAA_facts(1))
  have "arena \<lparr>header = \<lparr>length_f = 4, count = 1\<rparr>,
           arena = [0x41, 0x41, 0x41] @ replicate 4077 (0xFF :: byte)\<rparr> ! 3 = arena test_dirty ! 3"
    using C3_insert_copies_and_advances[OF n test_dirty_insert] l by blast
  then have k: "([0x41, 0x41, 0x41] @ replicate 4077 (0xFF :: byte)) ! 3 = 0xFF"
    using d3 by simp
  show ?thesis
    using C3_insert_copies_and_advances[OF n h] inv str_AAA_facts(3) test_dirty_insert d3 k
    by (simp add: test_fresh_def str_AAA_def)
qed

subsection \<open>C4: when insert fails\<close>

text \<open>
  Claim C4. Insert returns \<^verbatim>\<open>CACHE_INSERTION_FAILED\<close> with the mapping unchanged exactly when
  the string is empty, the end address of the write passes \<open>2 ^ 64\<close>, or header, occupied
  bytes, string and terminator together exceed the size of the region; an insert that
  fits succeeds, and the empty string always fails.
\<close>

theorem C4_insert_fails_exactly_when:
  assumes "cache_inv c m" "str_ok c s"
  shows "(cache_insert (Some c) m (Some s) = Inr (CACHE_INSERTION_FAILED, m) \<longleftrightarrow>
            strlen s = 0 \<or>
            2 ^ 64 \<le> unat (hdr c) + 16 + unat (length_f (header m)) + strlen s + 1 \<or>
            unat (size_f c) < 16 + unat (length_f (header m)) + strlen s + 1) \<and>
         (strlen s \<noteq> 0 \<and>
          unat (hdr c) + 16 + unat (length_f (header m)) + strlen s + 1 < 2 ^ 64 \<and>
          16 + unat (length_f (header m)) + strlen s + 1 \<le> unat (size_f c) \<longrightarrow>
            (\<exists>m'. cache_insert (Some c) m (Some s) = Inr (CACHE_INSERTION_SUCCESS, m'))) \<and>
         cache_insert (Some c) m (Some []) = Inr (CACHE_INSERTION_FAILED, m) \<and>
         CACHE_INSERTION_FAILED \<noteq> CACHE_INSERTION_SUCCESS"
proof -
  have r: "rejects c m s \<longleftrightarrow>
            strlen s = 0 \<or>
            2 ^ 64 \<le> unat (hdr c) + 16 + unat (length_f (header m)) + strlen s + 1 \<or>
            unat (size_f c) < 16 + unat (length_f (header m)) + strlen s + 1"
    by (simp only: rejects_def)
  have d: "CACHE_INSERTION_FAILED \<noteq> CACHE_INSERTION_SUCCESS" by (simp add: cache_codes)
  have e: "cache_insert (Some c) m (Some []) = Inr (CACHE_INSERTION_FAILED, m)"
    by (simp add: cache_insert_def u_cache_insert_def)
  have 1: "cache_insert (Some c) m (Some s) = Inr (CACHE_INSERTION_FAILED, m) \<longleftrightarrow> rejects c m s"
    using d by (simp add: cache_insert_cases[OF assms])
  have 2: "\<not> rejects c m s \<longrightarrow>
      (\<exists>m'. cache_insert (Some c) m (Some s) = Inr (CACHE_INSERTION_SUCCESS, m'))"
    by (simp add: cache_insert_cases[OF assms])
  have 3: "strlen s \<noteq> 0 \<and>
          unat (hdr c) + 16 + unat (length_f (header m)) + strlen s + 1 < 2 ^ 64 \<and>
          16 + unat (length_f (header m)) + strlen s + 1 \<le> unat (size_f c) \<longrightarrow> \<not> rejects c m s"
    unfolding r by linarith
  show ?thesis using 1 2 3 d e unfolding r by blast
qed

text \<open>
  C4 at the fresh test cache: 4080 bytes do not fit, \<^verbatim>\<open>"AAA"\<close> does, the empty string
  fails.
\<close>

theorem C4_witness:
  "cache_insert (Some test_cache) test_fresh (Some str_big) =
     Inr (CACHE_INSERTION_FAILED, test_fresh) \<and>
   cache_insert (Some test_cache) test_fresh (Some str_AAA) \<noteq>
     Inr (CACHE_INSERTION_FAILED, test_fresh) \<and>
   cache_insert (Some test_cache) test_fresh (Some []) =
     Inr (CACHE_INSERTION_FAILED, test_fresh)"
proof -
  have inv: "cache_inv test_cache test_fresh" using test_fresh_inv by simp
  have big: "unat (size_f test_cache) <
      16 + unat (length_f (header test_fresh)) + strlen str_big + 1"
    by (simp add: str_big_facts(1) test_cache_def test_fresh_def)
  have aaa: "\<not> (strlen str_AAA = 0 \<or>
      2 ^ 64 \<le> unat (hdr test_cache) + 16 + unat (length_f (header test_fresh)) +
        strlen str_AAA + 1 \<or>
      unat (size_f test_cache) < 16 + unat (length_f (header test_fresh)) + strlen str_AAA + 1)"
    by (simp add: str_AAA_facts(1) test_cache_def test_fresh_def)
  show ?thesis
    using C4_insert_fails_exactly_when[OF inv str_big_facts(2)]
      C4_insert_fails_exactly_when[OF inv str_AAA_facts(3)] big aaa
    by blast
qed

subsection \<open>C5: contains\<close>

text \<open>
  Claim C5 says that the scan of contains stops at a match or at a zero byte and so
  reports found exactly for the stored strings. Where the arena has room left this holds
  (\<open>cache_contains_inv\<close>). The capacity test of \<^verbatim>\<open>_cache_insert\<close> lets the last
  terminator be the last byte of the region, though: after the 1020 inserts of
  \<^verbatim>\<open>"AAA"\<close> of \<^verbatim>\<open>InsertFailsLengthExceeded\<close> no zero byte follows the last
  string, and looking up a string that is not stored reads past the region rather than
  returning not-found.
\<close>

theorem C5_contains_at_capacity:
  "run test_cache (replicate 1020 (Insert (Some str_AAA))) (test_fresh, 0) =
     Inr (test_full, 1020) \<and>
   cstr str_B \<notin> set (stored test_full) \<and>
   cache_contains (Some test_cache) test_full (Some str_B) = Inl ReadPastRegion"
proof -
  have "cstr str_B \<notin> set (stored test_full)"
    by (simp add: test_full_facts(3) str_B_def str_AAA_def cstr_def)
  then show ?thesis
    using test_full_run
    unfolding cache_contains_inv[OF test_full_facts(1)] test_full_facts(2)
    by (simp add: test_cache_def)
qed

subsection \<open>C6: insert if absent, twice\<close>

text \<open>
  Claim C6 as stated does not hold: when the first call fails for lack of room, the second
  call finds the same state and fails again; it does not report the string as present.
  The first call below leaves \<open>test_fresh\<close>, so the second call is the same call.
\<close>

theorem C6_counterexample:
  "strlen str_big \<noteq> 0 \<and>
   cache_notcontains_insert (Some test_cache) test_fresh (Some str_big) =
     Inr (CACHE_INSERTION_FAILED, test_fresh) \<and>
   CACHE_INSERTION_FAILED \<noteq> CACHE_CONTAINS_SUCCESS"
proof -
  have inv: "cache_inv test_cache test_fresh" and st: "stored test_fresh = []"
    using test_fresh_inv by simp_all
  have "cache_notcontains_insert (Some test_cache) test_fresh (Some str_big) =
     Inr (CACHE_INSERTION_FAILED, test_fresh)"
    unfolding cache_notcontains_insert_inv[OF inv str_big_facts(2)] st
    using str_big_facts(3) by (simp add: test_fresh_def test_cache_def)
  then show ?thesis using str_big_facts(1) by (simp add: cache_codes)
qed

text \<open>
  Claim C6, amended: when the first call returns a result, it is one of three distinct
  codes; the second call with the same string leaves the mapping (so \<open>count\<close>) as the
  first left it, and returns already-present if the first call inserted the string or
  found it, and insertion-failed if the first call failed.
\<close>

theorem C6_insert_if_absent_twice:
  assumes "cache_inv c m" "str_ok c s"
    and "cache_notcontains_insert (Some c) m (Some s) = Inr (r1, m1)"
  shows "(r1 = CACHE_CONTAINS_SUCCESS \<or> r1 = CACHE_INSERTION_SUCCESS \<or>
          r1 = CACHE_INSERTION_FAILED) \<and>
         (r1 \<noteq> CACHE_INSERTION_FAILED \<longrightarrow>
            cache_notcontains_insert (Some c) m1 (Some s) = Inr (CACHE_CONTAINS_SUCCESS, m1)) \<and>
         (r1 = CACHE_INSERTION_FAILED \<longrightarrow>
            cache_notcontains_insert (Some c) m1 (Some s) = Inr (CACHE_INSERTION_FAILED, m1)) \<and>
         CACHE_CONTAINS_SUCCESS \<noteq> CACHE_INSERTION_SUCCESS \<and>
         CACHE_CONTAINS_SUCCESS \<noteq> CACHE_INSERTION_FAILED \<and>
         CACHE_INSERTION_SUCCESS \<noteq> CACHE_INSERTION_FAILED"
proof -
  have d: "CACHE_CONTAINS_SUCCESS \<noteq> CACHE_INSERTION_SUCCESS"
    "CACHE_CONTAINS_SUCCESS \<noteq> CACHE_INSERTION_FAILED"
    "CACHE_INSERTION_SUCCESS \<noteq> CACHE_INSERTION_FAILED"
    by (simp_all add: cache_codes)
  note first = assms(3)[unfolded cache_notcontains_insert_inv[OF assms(1,2)]]
  consider (present) "cstr s \<in> set (stored m)"
    | (full) "cstr s \<notin> set (stored m)" "unat (length_f (header m)) = unat (size_f c) - 16"
    | (rej) "cstr s \<notin> set (stored m)" "unat (length_f (header m)) \<noteq> unat (size_f c) - 16"
        "rejects c m s"
    | (acc) "cstr s \<notin> set (stored m)" "unat (length_f (header m)) \<noteq> unat (size_f c) - 16"
        "\<not> rejects c m s"
    by blast
  then show ?thesis
  proof cases
    case present
    then have "r1 = CACHE_CONTAINS_SUCCESS" "m1 = m" using first by simp_all
    then show ?thesis
      using present d by (simp add: cache_notcontains_insert_inv[OF assms(1,2)])
  next
    case full
    then show ?thesis using first by simp
  next
    case rej
    then have "r1 = CACHE_INSERTION_FAILED" "m1 = m" using first by simp_all
    then show ?thesis
      using rej d by (simp add: cache_notcontains_insert_inv[OF assms(1,2)])
  next
    case acc
    then have r: "r1 = CACHE_INSERTION_SUCCESS" and m1: "m1 = appended m s"
      using first by simp_all
    have inv1: "cache_inv c m1" and st1: "stored m1 = stored m @ [cstr s]"
      using appended_inv[OF assms(1,2) acc(3)] m1 by simp_all
    show ?thesis
      using r d by (simp add: cache_notcontains_insert_inv[OF inv1 assms(2)] st1)
  qed
qed

text \<open>C6 at the fresh test cache and the string \<^verbatim>\<open>"AAA"\<close>.\<close>

theorem C6_witness:
  "cache_notcontains_insert (Some test_cache) test_fresh (Some str_AAA) =
     Inr (CACHE_INSERTION_SUCCESS, appended test_fresh str_AAA) \<and>
   cache_notcontains_insert (Some test_cache) (appended test_fresh str_AAA) (Some str_AAA) =
     Inr (CACHE_CONTAINS_SUCCESS, appended test_fresh str_AAA)"
proof -
  have inv: "cache_inv test_cache test_fresh" and st: "stored test_fresh = []"
    using test_fresh_inv by simp_all
  have h3: "cache_notcontains_insert (Some test_cache) test_fresh (Some str_AAA) =
     Inr (CACHE_INSERTION_SUCCESS, appended test_fresh str_AAA)"
    unfolding cache_notcontains_insert_inv[OF inv str_AAA_facts(3)] st
    using str_AAA_facts(4) by (simp add: test_fresh_def test_cache_def)
  show ?thesis
    using C6_insert_if_absent_twice[OF inv str_AAA_facts(3) h3] h3
    by (simp add: cache_codes)
qed

subsection \<open>C7: contains with a null or empty query\<close>

text \<open>
  Claim C7 as stated does not hold for the empty string: \<^verbatim>\<open>cache_contains\<close> tests its
  arguments for \<^verbatim>\<open>NULL\<close> only, and an empty query is scanned for and not found.
\<close>

theorem C7_counterexample:
  "cache_contains (Some test_cache) test_fresh (Some []) =
     Inr (CACHE_CONTAINS_FAILED, test_fresh) \<and>
   CACHE_CONTAINS_FAILED \<noteq> CACHE_EINVAL"
proof -
  have inv: "cache_inv test_cache test_fresh" and st: "stored test_fresh = []"
    using test_fresh_inv by simp_all
  show ?thesis
    unfolding cache_contains_inv[OF inv] st
    by (simp add: test_fresh_def test_cache_def cache_codes)
qed

text \<open>
  Claim C7, amended: contains with a null handle or a null query returns
  \<^verbatim>\<open>CACHE_EINVAL\<close>, whatever the arena holds. An empty query is not rejected: the scan
  runs, no stored string equals it, and the result is \<^verbatim>\<open>CACHE_CONTAINS_FAILED\<close> wherever
  the scan ends inside the region, as it does when the arena has room left.
\<close>

theorem C7_contains_null_and_empty_query:
  "cache_contains None m item = Inr (CACHE_EINVAL, m) \<and>
   cache_contains cache m None = Inr (CACHE_EINVAL, m) \<and>
   (strlen q = 0 \<longrightarrow>
      cache_contains (Some c) m (Some q) = Inr (CACHE_CONTAINS_FAILED, m) \<or>
      cache_contains (Some c) m (Some q) = Inl ReadPastRegion) \<and>
   (strlen q = 0 \<and> cache_inv c m \<and> unat (length_f (header m)) \<noteq> unat (size_f c) - 16 \<longrightarrow>
      cache_contains (Some c) m (Some q) = Inr (CACHE_CONTAINS_FAILED, m)) \<and>
   CACHE_CONTAINS_FAILED \<noteq> CACHE_EINVAL"
proof -
  have 1: "cache_contains None m item = Inr (CACHE_EINVAL, m)"
    by (simp add: cache_contains_def)
  have 2: "cache_contains cache m None = Inr (CACHE_EINVAL, m)"
    by (simp add: cache_contains_def split: option.splits)
  have 3: "strlen q = 0 \<longrightarrow>
      cache_contains (Some c) m (Some q) = Inr (CACHE_CONTAINS_FAILED, m) \<or>
      cache_contains (Some c) m (Some q) = Inl ReadPastRegion"
    using contains_loop_empty_query[of q "arena m"]
    by (auto simp: cache_contains_def u_cache_contains_def)
  have 4: "strlen q = 0 \<and> cache_inv c m \<and>
      unat (length_f (header m)) \<noteq> unat (size_f c) - 16 \<longrightarrow>
      cache_contains (Some c) m (Some q) = Inr (CACHE_CONTAINS_FAILED, m)"
  proof (intro impI)
    assume a: "strlen q = 0 \<and> cache_inv c m \<and>
      unat (length_f (header m)) \<noteq> unat (size_f c) - 16"
    then have "cstr q = []" using length_cstr[of q] by simp
    moreover have "[] \<notin> set (stored m)" using a by (simp add: cache_inv_def)
    ultimately show "cache_contains (Some c) m (Some q) = Inr (CACHE_CONTAINS_FAILED, m)"
      using a by (simp add: cache_contains_inv)
  qed
  have 5: "CACHE_CONTAINS_FAILED \<noteq> CACHE_EINVAL" by (simp add: cache_codes)
  show ?thesis using 1 2 3 4 5 by blast
qed

text \<open>C7 at the fresh test cache: a null query, and a query whose first byte is NUL.\<close>

theorem C7_witness:
  "cache_contains (Some test_cache) test_fresh None = Inr (CACHE_EINVAL, test_fresh) \<and>
   cache_contains (Some test_cache) test_fresh (Some [0]) =
     Inr (CACHE_CONTAINS_FAILED, test_fresh)"
proof -
  have inv: "cache_inv test_cache test_fresh" using test_fresh_inv by simp
  have h: "strlen [0 :: byte] = 0 \<and> cache_inv test_cache test_fresh \<and>
      unat (length_f (header test_fresh)) \<noteq> unat (size_f test_cache) - 16"
    using inv by (simp add: test_fresh_def test_cache_def)
  show ?thesis
    using C7_contains_null_and_empty_query[of test_fresh None "Some test_cache" "[0]" test_cache] h
    by blast
qed

subsection \<open>C8: the codes of a failed insert\<close>

text \<open>
  Claim C8 as stated does not hold: an empty string and a string that does not fit are
  both answered with \<^verbatim>\<open>CACHE_INSERTION_FAILED\<close>, which is not \<^verbatim>\<open>CACHE_EINVAL\<close>
  (\<^verbatim>\<open>InsertZeroLengthFails\<close> expects this code for the empty string).
\<close>

theorem C8_counterexample:
  "cache_insert (Some test_cache) test_fresh (Some []) =
     Inr (CACHE_INSERTION_FAILED, test_fresh) \<and>
   cache_insert (Some test_cache) test_fresh (Some str_big) =
     Inr (CACHE_INSERTION_FAILED, test_fresh) \<and>
   CACHE_INSERTION_FAILED \<noteq> CACHE_EINVAL"
proof -
  have inv: "cache_inv test_cache test_fresh" using test_fresh_inv by simp
  have "cache_insert (Some test_cache) test_fresh (Some str_big) =
     Inr (CACHE_INSERTION_FAILED, test_fresh)"
    using cache_insert_cases[OF inv str_big_facts(2)] str_big_facts(3) by simp
  then show ?thesis by (simp add: cache_insert_def u_cache_insert_def cache_codes)
qed

text \<open>
  Claim C8, amended: insert answers an empty string and a string rejected by the capacity
  test (wrap-around included) with the same code \<^verbatim>\<open>CACHE_INSERTION_FAILED\<close>;
  \<^verbatim>\<open>CACHE_EINVAL\<close>, a different code, is returned for a null handle or a null string and
  for nothing else.
\<close>

theorem C8_insert_failure_codes:
  "(strlen s = 0 \<longrightarrow> cache_insert (Some c) m (Some s) = Inr (CACHE_INSERTION_FAILED, m)) \<and>
   (cache_inv c m \<and> str_ok c s \<and>
    (2 ^ 64 \<le> unat (hdr c) + 16 + unat (length_f (header m)) + strlen s + 1 \<or>
     unat (size_f c) < 16 + unat (length_f (header m)) + strlen s + 1) \<longrightarrow>
      cache_insert (Some c) m (Some s) = Inr (CACHE_INSERTION_FAILED, m)) \<and>
   cache_insert None m item = Inr (CACHE_EINVAL, m) \<and>
   cache_insert cache m None = Inr (CACHE_EINVAL, m) \<and>
   (\<forall>m'. cache_insert (Some c) m (Some s) \<noteq> Inr (CACHE_EINVAL, m')) \<and>
   CACHE_INSERTION_FAILED \<noteq> CACHE_EINVAL"
proof -
  have 1: "strlen s = 0 \<longrightarrow> cache_insert (Some c) m (Some s) = Inr (CACHE_INSERTION_FAILED, m)"
    by (simp add: cache_insert_def u_cache_insert_def)
  have 2: "cache_inv c m \<and> str_ok c s \<and>
    (2 ^ 64 \<le> unat (hdr c) + 16 + unat (length_f (header m)) + strlen s + 1 \<or>
     unat (size_f c) < 16 + unat (length_f (header m)) + strlen s + 1) \<longrightarrow>
      cache_insert (Some c) m (Some s) = Inr (CACHE_INSERTION_FAILED, m)"
  proof (intro impI)
    assume a: "cache_inv c m \<and> str_ok c s \<and>
      (2 ^ 64 \<le> unat (hdr c) + 16 + unat (length_f (header m)) + strlen s + 1 \<or>
       unat (size_f c) < 16 + unat (length_f (header m)) + strlen s + 1)"
    then have "rejects c m s" unfolding rejects_def by blast
    then show "cache_insert (Some c) m (Some s) = Inr (CACHE_INSERTION_FAILED, m)"
      using a by (simp add: cache_insert_cases)
  qed
  have 3: "cache_insert None m item = Inr (CACHE_EINVAL, m)"
    by (simp add: cache_insert_def)
  have 4: "cache_insert cache m None = Inr (CACHE_EINVAL, m)"
    by (simp add: cache_insert_def split: option.splits)
  have 5: "\<forall>m'. cache_insert (Some c) m (Some s) \<noteq> Inr (CACHE_EINVAL, m')"
    by (auto simp: cache_insert_def u_cache_insert_def Let_def cache_codes
        split: if_splits sum.splits)
  have 6: "CACHE_INSERTION_FAILED \<noteq> CACHE_EINVAL" by (simp add: cache_codes)
  show ?thesis using 1 2 3 4 5 6 by blast
qed

text \<open>C8 at the fresh test cache.\<close>

theorem C8_witness:
  "cache_insert (Some test_cache) test_fresh (Some [0]) =
     Inr (CACHE_INSERTION_FAILED, test_fresh) \<and>
   cache_insert (Some test_cache) test_fresh (Some str_big) =
     Inr (CACHE_INSERTION_FAILED, test_fresh) \<and>
   cache_insert None test_fresh (Some str_AAA) = Inr (CACHE_EINVAL, test_fresh)"
proof -
  have inv: "cache_inv test_cache test_fresh" using test_fresh_inv by simp
  have h1: "strlen [0 :: byte] = 0" by simp
  have h2: "cache_inv test_cache test_fresh \<and> str_ok test_cache str_big \<and>
    (2 ^ 64 \<le> unat (hdr test_cache) + 16 + unat (length_f (header test_fresh)) +
        strlen str_big + 1 \<or>
     unat (size_f test_cache) < 16 + unat (length_f (header test_fresh)) + strlen str_big + 1)"
    using inv str_big_facts(2) by (simp add: str_big_facts(1) test_cache_def test_fresh_def)
  show ?thesis
    using C8_insert_failure_codes[of "[0]" test_cache test_fresh "Some str_AAA" None] h1
      C8_insert_failure_codes[of str_big test_cache test_fresh "Some str_AAA" None] h2
    by blast
qed

subsection \<open>C9: arguments are checked before any system call\<close>

text \<open>
  Claim C9. \<^verbatim>\<open>cache_map\<close> with a null handle, file name or lock name, with size zero or
  with a size that is not a multiple of \<open>0x1000\<close> (the page size the source assumes) returns
  \<^verbatim>\<open>CACHE_EINVAL\<close> and makes no system call; with valid arguments it makes some and never
  returns that code. \<^verbatim>\<open>cache_unmap\<close> with a null handle returns \<^verbatim>\<open>CACHE_EINVAL\<close> and
  makes no system call; with a handle it attempts all three releases.
\<close>

theorem C9_arguments_checked_before_io:
  "(cache = None \<or> fname = None \<or> lockname = None \<or> sz = 0 \<or> sz mod 0x1000 \<noteq> 0 \<longrightarrow>
      cache_map os cache fname lockname sz = (CACHE_EINVAL, None, [])) \<and>
   (cache \<noteq> None \<and> fname \<noteq> None \<and> lockname \<noteq> None \<and> sz \<noteq> 0 \<and> sz mod 0x1000 = 0 \<longrightarrow>
      fst (cache_map os cache fname lockname sz) \<noteq> CACHE_EINVAL \<and>
      snd (snd (cache_map os cache fname lockname sz)) \<noteq> []) \<and>
   cache_unmap os None = (CACHE_EINVAL, []) \<and>
   snd (cache_unmap os (Some c)) = [Sem_close, Munmap, Close]"
proof -
  have 1: "cache = None \<or> fname = None \<or> lockname = None \<or> sz = 0 \<or> sz mod 0x1000 \<noteq> 0 \<longrightarrow>
      cache_map os cache fname lockname sz = (CACHE_EINVAL, None, [])"
    by (auto simp: cache_map_def split: option.splits)
  have 2: "cache \<noteq> None \<and> fname \<noteq> None \<and> lockname \<noteq> None \<and> sz \<noteq> 0 \<and> sz mod 0x1000 = 0 \<longrightarrow>
      fst (cache_map os cache fname lockname sz) \<noteq> CACHE_EINVAL \<and>
      snd (snd (cache_map os cache fname lockname sz)) \<noteq> []"
    by (auto simp: cache_map_def cache_codes split: option.splits)
  have 3: "cache_unmap os None = (CACHE_EINVAL, [])" by (simp add: cache_unmap_def)
  have 4: "snd (cache_unmap os (Some c)) = [Sem_close, Munmap, Close]"
    by (simp add: cache_unmap_def Let_def)
  show ?thesis using 1 2 3 4 by blast
qed

text \<open>C9 at a misaligned size, a null handle, size zero, and a null handle to unmap.\<close>

theorem C9_witness:
  "cache_map test_env (Some test_cache) (Some ''/tmp/testcache'') (Some ''/testcachelock'')
     0x1001 = (CACHE_EINVAL, None, []) \<and>
   cache_map test_env None (Some ''/tmp/testcache'') (Some ''/tmp/testcache'') 0x1000 =
     (CACHE_EINVAL, None, []) \<and>
   cache_map test_env (Some test_cache) (Some ''/tmp/testcache'') (Some ''/tmp/testcache'') 0 =
     (CACHE_EINVAL, None, []) \<and>
   cache_unmap test_env None = (CACHE_EINVAL, [])"
proof -
  have h: "(0x1001 :: u64) mod 0x1000 \<noteq> 0" by simp
  show ?thesis
    using C9_arguments_checked_before_io[of "Some test_cache" "Some ''/tmp/testcache''"
        "Some ''/testcachelock''" "0x1001" test_env test_cache] h
      C9_arguments_checked_before_io[of None "Some ''/tmp/testcache''"
        "Some ''/tmp/testcache''" "0x1000" test_env test_cache]
      C9_arguments_checked_before_io[of "Some test_cache" "Some ''/tmp/testcache''"
        "Some ''/tmp/testcache''" 0 test_env test_cache]
    by blast
qed

subsection \<open>C10: the scans stay inside the region\<close>

text \<open>
  Claim C10 says that the scans of contains and of the debug traversal read only bytes of
  the mapped region, also when the arena is filled to exactly its capacity. They do while
  the arena has room left (\<open>u_cache_contains_inv\<close>, \<open>cache_debug_traverse_inv\<close>). After
  the 1020 successful inserts of \<^verbatim>\<open>"AAA"\<close> into the test cache, header and occupied bytes
  are the whole region, and both scans go on to read the byte at offset \<open>size\<close>, the first
  one outside.
\<close>

theorem C10_scan_reads_past_region_at_capacity:
  "run test_cache (replicate 1020 (Insert (Some str_AAA))) (test_fresh, 0) =
     Inr (test_full, 1020) \<and>
   16 + unat (length_f (header test_full)) = unat (size_f test_cache) \<and>
   length (arena test_full) = unat (size_f test_cache) - 16 \<and>
   u_cache_contains test_cache test_full str_B = Inl ReadPastRegion \<and>
   cache_debug_traverse (Some test_cache) test_full = Inl ReadPastRegion"
proof -
  have a: "length (arena test_full) = unat (size_f test_cache) - 16"
    using test_full_facts(1) by (simp add: cache_inv_def)
  have b: "cstr str_B \<notin> set (stored test_full)"
    by (simp add: test_full_facts(3) str_B_def str_AAA_def cstr_def)
  have c: "u_cache_contains test_cache test_full str_B = Inl ReadPastRegion"
    unfolding u_cache_contains_inv[OF test_full_facts(1)] test_full_facts(2)
    using b by (simp add: test_cache_def)
  have d: "cache_debug_traverse (Some test_cache) test_full = Inl ReadPastRegion"
    unfolding cache_debug_traverse_inv[OF test_full_facts(1)] test_full_facts(2)
    by (simp add: test_cache_def)
  show ?thesis using a c d test_full_run by (simp add: test_full_facts(2) test_cache_def)
qed

end
